theory Spec2Isabelle
  imports Main "HOL-Library.AList"
begin

section \<open>Tracker adapter: the beads-rust plugin\<close>

text \<open>
  \<^verbatim>\<open>src/plugins/trackers/builtin/beads-rust/index.ts\<close>. The plugin object carries the
  readiness flag of its base class and the last detected version of the \<^verbatim>\<open>br\<close> binary.
  The three task operations of the adapter contract are written out as the source has
  them: none of them reads or writes a field, and none runs the \<^verbatim>\<open>br\<close> binary.
\<close>

record BeadsRustTrackerPlugin =
  ready :: bool
  brVersion :: "string option"

record TaskCompletionResult =
  tcr_success :: bool
  tcr_message :: string
  tcr_error :: "string option"

text \<open>
  Modelled from the spec: the task and its status, declared in
  \<^verbatim>\<open>src/plugins/trackers/types.ts\<close>, which is missing from the sources. Section 3: a task
  has an id, a status among open, in progress, completed and blocked, a priority and a
  set of dependencies.
\<close>

datatype TrackerTaskStatus = Open | InProgress | Completed | Blocked

record TrackerTask =
  task_id :: string
  task_status :: TrackerTaskStatus
  task_priority :: nat
  task_dependencies :: "string list"

definition getTasks :: "BeadsRustTrackerPlugin \<Rightarrow> TrackerTask list \<times> BeadsRustTrackerPlugin" where
  "getTasks p = ([], p)"

definition completeTask ::
  "BeadsRustTrackerPlugin \<Rightarrow> string \<Rightarrow> TaskCompletionResult \<times> BeadsRustTrackerPlugin" where
  "completeTask p ident =
     (\<lparr> tcr_success = False,
        tcr_message = ''beads-rust tracker is not yet able to close tasks ('' @ ident @ '')'',
        tcr_error = Some ''Not implemented'' \<rparr>, p)"

definition updateTaskStatus ::
  "BeadsRustTrackerPlugin \<Rightarrow> string \<Rightarrow> TrackerTaskStatus \<Rightarrow> TrackerTask option \<times> BeadsRustTrackerPlugin" where
  "updateTaskStatus p ident st = (None, p)"

text \<open>A call sequence against the adapter: each call is made on the plugin the previous one left.\<close>

datatype tracker_call =
    GetTasks
  | CompleteTask string
  | UpdateTaskStatus string TrackerTaskStatus

fun tracker_step :: "BeadsRustTrackerPlugin \<Rightarrow> tracker_call \<Rightarrow> BeadsRustTrackerPlugin" where
  "tracker_step p GetTasks = snd (getTasks p)"
| "tracker_step p (CompleteTask ident) = snd (completeTask p ident)"
| "tracker_step p (UpdateTaskStatus ident st) = snd (updateTaskStatus p ident st)"

definition tracker_run :: "BeadsRustTrackerPlugin \<Rightarrow> tracker_call list \<Rightarrow> BeadsRustTrackerPlugin" where
  "tracker_run p calls = foldl tracker_step p calls"

definition fresh_tracker :: BeadsRustTrackerPlugin where
  "fresh_tracker = \<lparr> ready = True, brVersion = Some ''0.4.1'' \<rparr>"


section \<open>Rate-limit handling: backoff and retry-after\<close>

text \<open>
  The engine's rate-limit handling (\<^verbatim>\<open>src/engine/index.ts\<close> in the PRD's list of components
  to modify) is not among the available source files; only its requirements document
  \<^verbatim>\<open>tasks/prd-rate-limit-fallback.md\<close> is. The definitions of this section are therefore
  written from the specification. Durations are milliseconds.
\<close>

record RateLimitHandling =
  baseBackoffMs :: nat
  maxBackoffMs :: nat
  maxRetries :: nat

record RateLimitDetection =
  isRateLimit :: bool
  rl_message :: "string option"
  retryAfter :: "nat option"

text \<open>
  Modelled from the spec: the Backoff Controller's delay for retry attempt \<open>k\<close> (counted
  from 1), missing from the sources. Section 4.2: ``each delay is
  \<open>base \<times> 2^(attempt-1)\<close>, clamped to \<open>max\<close>''.
\<close>

definition backoffDelay :: "nat \<Rightarrow> nat \<Rightarrow> nat \<Rightarrow> nat" where
  "backoffDelay base mx k = min (base * 2 ^ (k - 1)) mx"


text \<open>
  Modelled from the spec: the wait before a retry, missing from the sources. Section 4.2:
  ``The engine waits the delay (or the detector's \<open>retryAfter\<close> if present)''.
\<close>

definition retryWait :: "RateLimitHandling \<Rightarrow> RateLimitDetection \<Rightarrow> nat \<Rightarrow> nat" where
  "retryWait cfg det attempt =
     (case retryAfter det of
        Some r \<Rightarrow> r
      | None \<Rightarrow> backoffDelay (baseBackoffMs cfg) (maxBackoffMs cfg) attempt)"

datatype rate_limit_action = RetryAfterWait nat | InvokeFallbackSelector

text \<open>
  Modelled from the spec: the engine's reaction to one positive detection, missing from
  the sources. Section 4.2: the same agent is re-invoked after the wait until ``the retry
  budget is exhausted''; then the Fallback Selector is consulted, and the attempt counter
  ``resets whenever the active agent changes''. The state is the number of retries
  already made for the current task and agent.
\<close>

definition onRateLimit ::
  "RateLimitHandling \<Rightarrow> nat \<Rightarrow> RateLimitDetection \<Rightarrow> rate_limit_action \<times> nat" where
  "onRateLimit cfg retryCount det =
     (if retryCount < maxRetries cfg
      then (RetryAfterWait (retryWait cfg det (Suc retryCount)), Suc retryCount)
      else (InvokeFallbackSelector, 0))"



definition defaultRateLimitHandling :: RateLimitHandling where
  "defaultRateLimitHandling = \<lparr> baseBackoffMs = 5000, maxBackoffMs = 60000, maxRetries = 3 \<rparr>"


section \<open>Remote control: the WebSocket client\<close>

text \<open>
  \<^verbatim>\<open>src/remote/client.ts\<close> and the message types of \<^verbatim>\<open>src/remote/types.ts\<close>. A message is
  a JSON object; the record keeps the properties the client reads from a received message
  or writes into one it sends, each absent (\<open>None\<close>) or present. The payload of an engine
  event is declared in \<^verbatim>\<open>src/engine/types.ts\<close>, which is not available: it is the type
  parameter \<open>'e\<close>.
\<close>

record 'e WSMessage =
  m_type :: string
  m_id :: string
  m_timestamp :: string
  m_token :: "string option"
  m_success :: "bool option"
  m_error :: "string option"
  m_event :: "'e option"
  m_eventTypes :: "string list option"
  m_count :: "int option"

definition message :: "string \<Rightarrow> string \<Rightarrow> string \<Rightarrow> 'e WSMessage" where
  "message ty ident ts =
     \<lparr> m_type = ty, m_id = ident, m_timestamp = ts, m_token = None, m_success = None,
       m_error = None, m_event = None, m_eventTypes = None, m_count = None \<rparr>"

datatype ConnectionStatus = Disconnected | Connecting | Connected

datatype 'e RemoteClientEvent =
    EvConnecting
  | EvConnected
  | EvDisconnected "string option"
  | EvMessage "'e WSMessage"
  | EvEngineEvent "'e option"

text \<open>
  The public request methods. Each awaits the promise of \<open>request\<close>; the constructor
  stands for the method's continuation, which the \<open>resolve\<close> callback of the pending
  request resumes.
\<close>

datatype caller =
    CallSubscribe "string list option"
  | CallUnsubscribe
  | CallGetState
  | CallGetTasks
  | CallPause
  | CallResume
  | CallInterrupt
  | CallRefreshTasks
  | CallAddIterations int
  | CallRemoveIterations int
  | CallContinue

text \<open>
  A pending request: \<open>pr_promise\<close> numbers the promise that \<open>resolve\<close> and \<open>reject\<close>
  settle, \<open>pr_caller\<close> is the method awaiting it, \<open>pr_timeout\<close> is the handle of its timer.
\<close>

record PendingRequest =
  pr_promise :: nat
  pr_caller :: caller
  pr_timeout :: nat

datatype 'e outcome = Resolved "'e WSMessage" | Rejected string

datatype connect_outcome = ConnectResolved | ConnectRejected "string option"

datatype ReadyState = CONNECTING | OPEN | CLOSED

text \<open>
  The client object. \<open>ws\<close> is the field \<open>this.ws\<close> (\<open>None\<close> for \<open>null\<close>) with the
  ready state of the socket it holds; \<open>pendingRequests\<close> is the \<open>Map\<close>, in insertion order.
  The remaining fields are what the client does to its surroundings: \<open>timeouts\<close> are the
  armed request timers (handle and the request id their callback closes over), \<open>sent\<close> the
  frames passed to \<open>ws.send\<close>, \<open>emitted\<close> the calls of the event handler, \<open>settled\<close> the
  calls of \<open>resolve\<close> and \<open>reject\<close> on request promises, \<open>connectSettled\<close> those on the
  promise of \<open>connect\<close>, \<open>nextPromise\<close> the number of request promises created so far, and
  \<open>stale\<close> the number of sockets that \<open>connect\<close> has replaced in \<open>this.ws\<close> while their
  handlers were still attached.
\<close>

record 'e RemoteClient =
  ws :: "ReadyState option"
  token :: string
  pingInterval :: bool
  status :: ConnectionStatus
  pendingRequests :: "(string \<times> PendingRequest) list"
  subscribed :: bool
  timeouts :: "(nat \<times> string) list"
  sent :: "'e WSMessage list"
  emitted :: "'e RemoteClientEvent list"
  settled :: "(nat \<times> 'e outcome) list"
  connectSettled :: "connect_outcome list"
  nextPromise :: nat
  stale :: nat

definition newRemoteClient :: "string \<Rightarrow> 'e RemoteClient" where
  "newRemoteClient tok =
     \<lparr> ws = None, token = tok, pingInterval = False, status = Disconnected,
       pendingRequests = [], subscribed = False, timeouts = [], sent = [], emitted = [],
       settled = [], connectSettled = [], nextPromise = 0, stale = 0 \<rparr>"

definition eventHandler :: "'e RemoteClientEvent \<Rightarrow> 'e RemoteClient \<Rightarrow> 'e RemoteClient" where
  "eventHandler ev c = c\<lparr> emitted := emitted c @ [ev] \<rparr>"

definition ws_send :: "'e WSMessage \<Rightarrow> 'e RemoteClient \<Rightarrow> 'e RemoteClient" where
  "ws_send msg c = c\<lparr> sent := sent c @ [msg] \<rparr>"

definition clearTimeout :: "nat \<Rightarrow> 'e RemoteClient \<Rightarrow> 'e RemoteClient" where
  "clearTimeout h c = c\<lparr> timeouts := filter (\<lambda>t. fst t \<noteq> h) (timeouts c) \<rparr>"

definition settle :: "nat \<Rightarrow> 'e outcome \<Rightarrow> 'e RemoteClient \<Rightarrow> 'e RemoteClient" where
  "settle n out c = c\<lparr> settled := settled c @ [(n, out)] \<rparr>"

text \<open>
  \<open>connect\<close>: the argument is what \<open>new WebSocket(url)\<close> does, \<open>None\<close> when it returns a
  socket, \<open>Some e\<close> when it throws (\<open>e\<close> the message of a thrown \<open>Error\<close>, \<open>None\<close> for any
  other thrown value).
\<close>

definition connect :: "string option option \<Rightarrow> 'e RemoteClient \<Rightarrow> 'e RemoteClient" where
  "connect ctor c =
     (if status c = Connecting \<or> status c = Connected then c
      else
        let c1 = eventHandler EvConnecting (c\<lparr> status := Connecting \<rparr>) in
        case ctor of
          None \<Rightarrow>
            c1\<lparr> ws := Some CONNECTING,
                stale := (if ws c1 = None then stale c1 else Suc (stale c1)) \<rparr>
        | Some e \<Rightarrow>
            let c2 = c1\<lparr> status := Disconnected \<rparr>;
                errorMessage = (case e of Some msg \<Rightarrow> msg | None \<Rightarrow> ''Unknown error'');
                c3 = eventHandler (EvDisconnected (Some errorMessage)) c2
            in c3\<lparr> connectSettled := connectSettled c3 @ [ConnectRejected e] \<rparr>)"

definition stopPingInterval :: "'e RemoteClient \<Rightarrow> 'e RemoteClient" where
  "stopPingInterval c = (if pingInterval c then c\<lparr> pingInterval := False \<rparr> else c)"

definition startPingInterval :: "'e RemoteClient \<Rightarrow> 'e RemoteClient" where
  "startPingInterval c = (stopPingInterval c)\<lparr> pingInterval := True \<rparr>"

text \<open>The callback of the ping interval, with the id and the timestamp it draws.\<close>

definition pingTick :: "string \<Rightarrow> string \<Rightarrow> 'e RemoteClient \<Rightarrow> 'e RemoteClient" where
  "pingTick uuid now c =
     (if status c = Connected \<and> ws c \<noteq> None then ws_send (message ''ping'' uuid now) c else c)"

text \<open>The loop of \<open>cleanup\<close> over the entries of the map, in insertion order.\<close>

fun rejectAll :: "(string \<times> PendingRequest) list \<Rightarrow> 'e RemoteClient \<Rightarrow> 'e RemoteClient" where
  "rejectAll [] c = c"
| "rejectAll ((ident, pending) # rest) c =
     (let c1 = clearTimeout (pr_timeout pending) c;
          c2 = settle (pr_promise pending) (Rejected ''Connection closed'') c1
      in rejectAll rest (c2\<lparr> pendingRequests := AList.delete ident (pendingRequests c2) \<rparr>))"

definition cleanup :: "'e RemoteClient \<Rightarrow> 'e RemoteClient" where
  "cleanup c =
     (let c1 = stopPingInterval c;
          c2 = rejectAll (pendingRequests c1) c1;
          c3 = c2\<lparr> subscribed := False \<rparr>
      in case ws c3 of None \<Rightarrow> c3 | Some sock \<Rightarrow> c3\<lparr> ws := None \<rparr>)"

definition disconnect :: "'e RemoteClient \<Rightarrow> 'e RemoteClient" where
  "disconnect c = eventHandler (EvDisconnected None) ((cleanup c)\<lparr> status := Disconnected \<rparr>)"

definition send :: "'e WSMessage \<Rightarrow> 'e RemoteClient \<Rightarrow> 'e RemoteClient" where
  "send msg c = (if ws c \<noteq> None \<and> status c = Connected then ws_send msg c else c)"

definition authenticate :: "string \<Rightarrow> string \<Rightarrow> 'e RemoteClient \<Rightarrow> 'e RemoteClient" where
  "authenticate uuid now c =
     (let authMessage = (message ''auth'' uuid now)\<lparr> m_token := Some (token c) \<rparr>
      in case ws c of None \<Rightarrow> c | Some sock \<Rightarrow> ws_send authMessage c)"

text \<open>
  What resolving the promise of a pending request resumes: the rest of the awaiting
  method. Only \<open>subscribe\<close> and \<open>unsubscribe\<close> write to the client there; the other
  methods return a value to their caller or throw.
\<close>

fun resume :: "caller \<Rightarrow> 'e WSMessage \<Rightarrow> 'e RemoteClient \<Rightarrow> 'e RemoteClient" where
  "resume (CallSubscribe evs) response c =
     (if m_type response = ''operation_result'' \<and> m_success response \<noteq> Some True then c
      else c\<lparr> subscribed := True \<rparr>)"
| "resume CallUnsubscribe response c = c\<lparr> subscribed := False \<rparr>"
| "resume other response c = c"

definition handleMessage :: "'e WSMessage \<Rightarrow> 'e RemoteClient \<Rightarrow> 'e RemoteClient" where
  "handleMessage msg c =
     (case map_of (pendingRequests c) (m_id msg) of
        Some pending \<Rightarrow>
          let c1 = clearTimeout (pr_timeout pending) c;
              c2 = c1\<lparr> pendingRequests := AList.delete (m_id msg) (pendingRequests c1) \<rparr>;
              c3 = settle (pr_promise pending) (Resolved msg) c2
          in resume (pr_caller pending) msg c3
      | None \<Rightarrow>
          if m_type msg = ''auth_response'' then
            (if m_success msg = Some True then
               let c1 = eventHandler EvConnected (c\<lparr> status := Connected \<rparr>);
                   c2 = startPingInterval c1
               in c2\<lparr> connectSettled := connectSettled c2 @ [ConnectResolved] \<rparr>
             else
               let c1 = c\<lparr> status := Disconnected \<rparr>;
                   error = (case m_error msg of Some e \<Rightarrow> e | None \<Rightarrow> ''Authentication failed'');
                   c2 = eventHandler (EvDisconnected (Some error)) c1;
                   c3 = cleanup c2
               in c3\<lparr> connectSettled := connectSettled c3 @ [ConnectRejected (Some error)] \<rparr>)
          else if m_type msg = ''pong'' then c
          else if m_type msg = ''engine_event'' then eventHandler (EvEngineEvent (m_event msg)) c
          else eventHandler (EvMessage msg) c)"

text \<open>The message a request method builds, before \<open>request\<close> adds id and timestamp.\<close>

fun callMessage :: "caller \<Rightarrow> 'e WSMessage" where
  "callMessage (CallSubscribe evs) = (message ''subscribe'' [] [])\<lparr> m_eventTypes := evs \<rparr>"
| "callMessage CallUnsubscribe = message ''unsubscribe'' [] []"
| "callMessage CallGetState = message ''get_state'' [] []"
| "callMessage CallGetTasks = message ''get_tasks'' [] []"
| "callMessage CallPause = message ''pause'' [] []"
| "callMessage CallResume = message ''resume'' [] []"
| "callMessage CallInterrupt = message ''interrupt'' [] []"
| "callMessage CallRefreshTasks = message ''refresh_tasks'' [] []"
| "callMessage (CallAddIterations n) = (message ''add_iterations'' [] [])\<lparr> m_count := Some n \<rparr>"
| "callMessage (CallRemoveIterations n) = (message ''remove_iterations'' [] [])\<lparr> m_count := Some n \<rparr>"
| "callMessage CallContinue = message ''continue'' [] []"

text \<open>
  \<open>request\<close>, called by the method \<open>who\<close> with the id and timestamp it draws. The result
  is the number of the returned promise. When the guard fails the \<open>async\<close> function throws,
  which rejects that promise at once.
\<close>

definition request ::
  "caller \<Rightarrow> string \<Rightarrow> string \<Rightarrow> 'e RemoteClient \<Rightarrow> nat \<times> 'e RemoteClient" where
  "request who uuid now c =
     (let n = nextPromise c; c0 = c\<lparr> nextPromise := Suc n \<rparr> in
      if status c \<noteq> Connected \<or> ws c = None
      then (n, settle n (Rejected ''Not connected'') c0)
      else
        let fullMessage = (callMessage who)\<lparr> m_id := uuid, m_timestamp := now \<rparr>;
            c1 = c0\<lparr> timeouts := timeouts c0 @ [(n, uuid)] \<rparr>;
            c2 = c1\<lparr> pendingRequests :=
                       AList.update uuid \<lparr> pr_promise = n, pr_caller = who, pr_timeout = n \<rparr>
                         (pendingRequests c1) \<rparr>
        in (n, ws_send fullMessage c2))"

text \<open>The callback of a request's timer: it closes over the request id and \<open>reject\<close>.\<close>

definition requestTimeout :: "nat \<Rightarrow> string \<Rightarrow> 'e RemoteClient \<Rightarrow> 'e RemoteClient" where
  "requestTimeout h ident c =
     (let c1 = c\<lparr> pendingRequests := AList.delete ident (pendingRequests c) \<rparr>
      in settle h (Rejected ''Request timeout'') c1)"

text \<open>The four handlers that \<open>connect\<close> attaches to the socket.\<close>

definition ws_onopen :: "string \<Rightarrow> string \<Rightarrow> 'e RemoteClient \<Rightarrow> 'e RemoteClient" where
  "ws_onopen uuid now c = authenticate uuid now c"

text \<open>\<open>None\<close> is a frame that \<open>JSON.parse\<close> rejects: the handler ignores it.\<close>

definition ws_onmessage :: "'e WSMessage option \<Rightarrow> 'e RemoteClient \<Rightarrow> 'e RemoteClient" where
  "ws_onmessage parsed c = (case parsed of None \<Rightarrow> c | Some msg \<Rightarrow> handleMessage msg c)"

definition ws_onerror :: "'e RemoteClient \<Rightarrow> 'e RemoteClient" where
  "ws_onerror c =
     (let c1 = eventHandler (EvDisconnected (Some ''Connection error'')) (c\<lparr> status := Disconnected \<rparr>)
      in c1\<lparr> connectSettled := connectSettled c1 @ [ConnectRejected (Some ''Connection error'')] \<rparr>)"

definition ws_onclose :: "'e RemoteClient \<Rightarrow> 'e RemoteClient" where
  "ws_onclose c =
     (let c1 = cleanup c in
      if status c1 = Connected
      then eventHandler (EvDisconnected (Some ''Connection closed'')) (c1\<lparr> status := Disconnected \<rparr>)
      else c1)"

text \<open>
  What can happen to a client: a method call by its owner, or an event of its
  surroundings. \<open>fire\<close> gives the client after the event, and \<open>None\<close> when the event
  cannot occur in that state: a socket opens once, while connecting; it delivers frames
  while open; an error closes it, and the close event follows; a timer fires while armed;
  \<open>crypto.randomUUID\<close> gives a request an id that no pending request carries.
\<close>

datatype 'e action =
    Connect "string option option"
  | Disconnect
  | Send "'e WSMessage"
  | Call caller string string
  | SocketOpen string string
  | SocketMessage "'e WSMessage option"
  | SocketError
  | SocketClose
  | StaleSocketClose
  | PingTick string string
  | RequestTimeout nat

fun fire :: "'e action \<Rightarrow> 'e RemoteClient \<Rightarrow> 'e RemoteClient option" where
  "fire (Connect ctor) c = Some (connect ctor c)"
| "fire Disconnect c = Some (disconnect c)"
| "fire (Send msg) c = Some (send msg c)"
| "fire (Call who uuid now) c =
     (if uuid \<in> fst ` set (pendingRequests c) then None else Some (snd (request who uuid now c)))"
| "fire (SocketOpen uuid now) c =
     (if ws c = Some CONNECTING then Some (ws_onopen uuid now (c\<lparr> ws := Some OPEN \<rparr>)) else None)"
| "fire (SocketMessage parsed) c =
     (if ws c = Some OPEN then Some (ws_onmessage parsed c) else None)"
| "fire SocketError c =
     (if ws c = Some CONNECTING \<or> ws c = Some OPEN
      then Some (ws_onerror (c\<lparr> ws := Some CLOSED \<rparr>)) else None)"
| "fire SocketClose c =
     (if ws c \<noteq> None then Some (ws_onclose (c\<lparr> ws := Some CLOSED \<rparr>)) else None)"
| "fire StaleSocketClose c =
     (if 0 < stale c then Some (ws_onclose (c\<lparr> stale := stale c - 1 \<rparr>)) else None)"
| "fire (PingTick uuid now) c =
     (if pingInterval c then Some (pingTick uuid now c) else None)"
| "fire (RequestTimeout h) c =
     (case map_of (timeouts c) h of
        None \<Rightarrow> None
      | Some ident \<Rightarrow> Some (requestTimeout h ident (clearTimeout h c)))"

fun run :: "'e action list \<Rightarrow> 'e RemoteClient \<Rightarrow> 'e RemoteClient option" where
  "run [] c = Some c"
| "run (a # as) c = (case fire a c of None \<Rightarrow> None | Some c' \<Rightarrow> run as c')"


text \<open>
  The bookkeeping that the request machinery keeps in every state it reaches: the keys of
  the map are distinct, the armed timers are exactly those of the pending requests, and
  every promise created so far is either settled, once, or has its timer armed.
\<close>

definition client_inv :: "'e RemoteClient \<Rightarrow> bool" where
  "client_inv c \<longleftrightarrow>
     distinct (map fst (pendingRequests c))
   \<and> timeouts c = map (\<lambda>e. (pr_promise (snd e), fst e)) (pendingRequests c)
   \<and> list_all (\<lambda>e. pr_timeout (snd e) = pr_promise (snd e)) (pendingRequests c)
   \<and> distinct (map fst (timeouts c))
   \<and> distinct (map fst (settled c))
   \<and> fst ` set (settled c) \<inter> fst ` set (timeouts c) = {}
   \<and> fst ` set (settled c) \<union> fst ` set (timeouts c) = {..< nextPromise c}"




text \<open>The reasons with which the client rejects the promise of a request.\<close>

definition rejectionReasons :: "string set" where
  "rejectionReasons = {''Request timeout'', ''Connection closed'', ''Not connected''}"

fun knownOutcome :: "'e outcome \<Rightarrow> bool" where
  "knownOutcome (Resolved msg) = True"
| "knownOutcome (Rejected reason) = (reason \<in> rejectionReasons)"

text \<open>
  Two runs used as concrete instances below. Both connect, open the socket and receive a
  successful \<open>auth_response\<close>; the first then sends \<open>get_state\<close> and \<open>pause\<close> and has
  heard no answer yet, the second subscribes and receives the successful result.
\<close>

definition authOk :: "nat WSMessage" where
  "authOk = (message ''auth_response'' ''a-1'' ''t1'')\<lparr> m_success := Some True \<rparr>"

definition busyRun :: "nat action list" where
  "busyRun =
     [Connect None, SocketOpen ''u-0'' ''t0'', SocketMessage (Some authOk),
      Call CallGetState ''u-1'' ''t2'', Call CallPause ''u-2'' ''t3'']"

definition busyClient :: "nat RemoteClient" where
  "busyClient =
     \<lparr> ws = Some OPEN, token = ''secret'', pingInterval = True, status = Connected,
       pendingRequests =
         [(''u-1'', \<lparr> pr_promise = 0, pr_caller = CallGetState, pr_timeout = 0 \<rparr>),
          (''u-2'', \<lparr> pr_promise = 1, pr_caller = CallPause, pr_timeout = 1 \<rparr>)],
       subscribed = False,
       timeouts = [(0, ''u-1''), (1, ''u-2'')],
       sent =
         [(message ''auth'' ''u-0'' ''t0'')\<lparr> m_token := Some ''secret'' \<rparr>,
          message ''get_state'' ''u-1'' ''t2'', message ''pause'' ''u-2'' ''t3''],
       emitted = [EvConnecting, EvConnected],
       settled = [], connectSettled = [ConnectResolved], nextPromise = 2, stale = 0 \<rparr>"

definition subscribeOk :: "nat WSMessage" where
  "subscribeOk = (message ''operation_result'' ''u-1'' ''t3'')\<lparr> m_success := Some True \<rparr>"

definition subscribedRun :: "nat action list" where
  "subscribedRun =
     [Connect None, SocketOpen ''u-0'' ''t0'', SocketMessage (Some authOk),
      Call (CallSubscribe None) ''u-1'' ''t2'', SocketMessage (Some subscribeOk)]"

definition subscribedClient :: "nat RemoteClient" where
  "subscribedClient =
     \<lparr> ws = Some OPEN, token = ''secret'', pingInterval = True, status = Connected,
       pendingRequests = [], subscribed = True, timeouts = [],
       sent =
         [(message ''auth'' ''u-0'' ''t0'')\<lparr> m_token := Some ''secret'' \<rparr>,
          message ''subscribe'' ''u-1'' ''t2''],
       emitted = [EvConnecting, EvConnected],
       settled = [(0, Resolved subscribeOk)], connectSettled = [ConnectResolved],
       nextPromise = 1, stale = 0 \<rparr>"



definition taskEvent :: "nat WSMessage" where
  "taskEvent = (message ''engine_event'' ''e-7'' ''t4'')\<lparr> m_event := Some 42 \<rparr>"


section \<open>Agent adapter: the Kimi plugin\<close>

subsection \<open>Detection\<close>
















subsection \<open>JSONL output\<close>

text \<open>
  A parsed JSON value; the representation of numbers is the type parameter \<open>'n\<close>, and an
  object lists each of its keys once. \<open>JSON.parse\<close> and the message of the \<open>TypeError\<close>
  that reading a property of \<open>null\<close> throws belong to the JavaScript engine: the functions
  below take them as the record \<open>engine\<close>. Strings are lists of code units below 256, of
  which \<open>trim\<close> strips tab, line feed, vertical tab, form feed, carriage return, space and
  no-break space.
\<close>

datatype 'n json =
    JNull
  | JBool bool
  | JNum 'n
  | JStr string
  | JArr "'n json list"
  | JObj "(string \<times> 'n json) list"

record 'n JsEngine =
  jsonParse :: "string \<Rightarrow> string + 'n json"
  nullReadError :: string

record 'n KimiTool =
  tool_name :: "string option"
  tool_input :: "'n json option"

record 'n KimiCost =
  inputTokens :: "'n option"
  outputTokens :: "'n option"
  totalUSD :: "'n option"

record 'n KimiJsonlMessage =
  km_type :: "string option"
  km_message :: "string option"
  km_tool :: "'n KimiTool option"
  km_result :: "'n json option"
  km_cost :: "'n KimiCost option"
  km_sessionId :: "string option"
  km_raw :: "'n json"

datatype 'n KimiJsonlParseResult =
    ParseSuccess "'n KimiJsonlMessage"
  | ParseFailure string string

definition isWhiteSpace :: "char \<Rightarrow> bool" where
  "isWhiteSpace ch \<longleftrightarrow> of_char ch \<in> {9, 10, 11, 12, 13, 32, 160 :: nat}"

definition trim :: "string \<Rightarrow> string" where
  "trim s = rev (dropWhile isWhiteSpace (rev (dropWhile isWhiteSpace s)))"

text \<open>Reading a property of a value that is not \<open>null\<close>: \<open>None\<close> is \<open>undefined\<close>.\<close>

fun getProp :: "'n json \<Rightarrow> string \<Rightarrow> 'n json option" where
  "getProp (JObj kvs) key = map_of kvs key"
| "getProp v key = None"

fun asString :: "'n json option \<Rightarrow> string option" where
  "asString (Some (JStr s)) = Some s"
| "asString v = None"

fun asNumber :: "'n json option \<Rightarrow> 'n option" where
  "asNumber (Some (JNum x)) = Some x"
| "asNumber v = None"

text \<open>\<open>v && typeof v === 'object'\<close>: objects and arrays; \<open>null\<close> is falsy.\<close>

fun asObject :: "'n json option \<Rightarrow> 'n json option" where
  "asObject (Some (JObj kvs)) = Some (JObj kvs)"
| "asObject (Some (JArr vs)) = Some (JArr vs)"
| "asObject v = None"

definition buildMessage :: "'n json \<Rightarrow> 'n KimiJsonlMessage" where
  "buildMessage parsed =
     \<lparr> km_type = asString (getProp parsed ''type''),
       km_message = asString (getProp parsed ''message''),
       km_tool =
         (case asObject (getProp parsed ''tool'') of
            None \<Rightarrow> None
          | Some toolObj \<Rightarrow>
              Some \<lparr> tool_name = asString (getProp toolObj ''name''),
                     tool_input = asObject (getProp toolObj ''input'') \<rparr>),
       km_result = getProp parsed ''result'',
       km_cost =
         (case asObject (getProp parsed ''cost'') of
            None \<Rightarrow> None
          | Some costObj \<Rightarrow>
              Some \<lparr> inputTokens = asNumber (getProp costObj ''inputTokens''),
                     outputTokens = asNumber (getProp costObj ''outputTokens''),
                     totalUSD = asNumber (getProp costObj ''totalUSD'') \<rparr>),
       km_sessionId = asString (getProp parsed ''sessionId''),
       km_raw = parsed \<rparr>"

definition parseJsonlLine :: "'n JsEngine \<Rightarrow> string \<Rightarrow> 'n KimiJsonlParseResult" where
  "parseJsonlLine engine line =
     (let trimmed = trim line in
      if trimmed = [] then ParseFailure line ''Empty line''
      else case jsonParse engine trimmed of
        Inl err \<Rightarrow> ParseFailure line err
      | Inr parsed \<Rightarrow>
          (case parsed of
             JNull \<Rightarrow> ParseFailure line (nullReadError engine)
           | _ \<Rightarrow> ParseSuccess (buildMessage parsed)))"

text \<open>\<open>output.split('\n')\<close>.\<close>

fun splitLines :: "string \<Rightarrow> string list" where
  "splitLines [] = [[]]"
| "splitLines (c # cs) =
     (if c = CHR 0x0A then [] # splitLines cs
      else (case splitLines cs of l # ls \<Rightarrow> (c # l) # ls | [] \<Rightarrow> [[c]]))"

record 'n ParsedOutput =
  messages :: "'n KimiJsonlMessage list"
  fallback :: "string list"

text \<open>What both parsers do with the result of one line.\<close>

fun record_result :: "'n KimiJsonlParseResult \<Rightarrow> 'n ParsedOutput \<Rightarrow> 'n ParsedOutput" where
  "record_result (ParseSuccess msg) out = out\<lparr> messages := messages out @ [msg] \<rparr>"
| "record_result (ParseFailure raw err) out =
     (if trim raw \<noteq> [] then out\<lparr> fallback := fallback out @ [raw] \<rparr> else out)"

definition parseJsonlOutput :: "'n JsEngine \<Rightarrow> string \<Rightarrow> 'n ParsedOutput" where
  "parseJsonlOutput engine output =
     foldl (\<lambda>out line. record_result (parseJsonlLine engine line) out)
       \<lparr> messages = [], fallback = [] \<rparr> (splitLines output)"

text \<open>
  The streaming parser: the three variables its closures share, and \<open>push\<close>, \<open>flush\<close> and
  \<open>getState\<close>. \<open>indexOf\<close> is \<open>buffer.indexOf('\n')\<close>, \<open>None\<close> for \<open>-1\<close>.
\<close>

record 'n StreamingParser =
  buffer :: string
  parsed :: "'n ParsedOutput"

definition createStreamingJsonlParser :: "'n StreamingParser" where
  "createStreamingJsonlParser = \<lparr> buffer = [], parsed = \<lparr> messages = [], fallback = [] \<rparr> \<rparr>"

fun indexOf :: "string \<Rightarrow> char \<Rightarrow> nat option" where
  "indexOf [] ch = None"
| "indexOf (c # cs) ch =
     (if c = ch then Some 0 else (case indexOf cs ch of None \<Rightarrow> None | Some i \<Rightarrow> Some (Suc i)))"

function pushLoop ::
  "'n JsEngine \<Rightarrow> 'n StreamingParser \<Rightarrow> 'n KimiJsonlParseResult list
     \<Rightarrow> 'n KimiJsonlParseResult list \<times> 'n StreamingParser" where
  "pushLoop engine p results =
     (case indexOf (buffer p) (CHR 0x0A) of
        None \<Rightarrow> (results, p)
      | Some newlineIndex \<Rightarrow>
          let line = take newlineIndex (buffer p);
              p1 = p\<lparr> buffer := drop (newlineIndex + 1) (buffer p) \<rparr>;
              result = parseJsonlLine engine line
          in pushLoop engine (p1\<lparr> parsed := record_result result (parsed p1) \<rparr>)
               (results @ [result]))"
  by pat_completeness auto
termination
proof (relation "measure (\<lambda>(engine, p, results). length (buffer p))")
  show "wf (measure (\<lambda>(engine, p, results). length (buffer p)))"
    by simp
next
  fix engine :: "'n JsEngine" and p :: "'n StreamingParser"
    and results :: "'n KimiJsonlParseResult list"
    and newlineIndex line p1 result
  assume "indexOf (buffer p) (CHR 0x0A) = Some newlineIndex"
    and "p1 = p\<lparr> buffer := drop (newlineIndex + 1) (buffer p) \<rparr>"
  then show "((engine, p1\<lparr> parsed := record_result result (parsed p1) \<rparr>, results @ [result]),
              (engine, p, results)) \<in> measure (\<lambda>(engine, p, results). length (buffer p))"
    by (cases "buffer p") auto
qed

declare pushLoop.simps [simp del]

definition push ::
  "'n JsEngine \<Rightarrow> string \<Rightarrow> 'n StreamingParser
     \<Rightarrow> 'n KimiJsonlParseResult list \<times> 'n StreamingParser" where
  "push engine chunk p = pushLoop engine (p\<lparr> buffer := buffer p @ chunk \<rparr>) []"

definition flush ::
  "'n JsEngine \<Rightarrow> 'n StreamingParser \<Rightarrow> 'n KimiJsonlParseResult list \<times> 'n StreamingParser" where
  "flush engine p =
     (if trim (buffer p) = [] then ([], p\<lparr> buffer := [] \<rparr>)
      else
        let result = parseJsonlLine engine (buffer p);
            p1 = p\<lparr> buffer := [] \<rparr>
        in ([result], p1\<lparr> parsed := record_result result (parsed p1) \<rparr>))"

definition getState :: "'n StreamingParser \<Rightarrow> 'n ParsedOutput" where
  "getState p = parsed p"

text \<open>Pushing the chunks of a partition in order, then flushing.\<close>

definition pushAll :: "'n JsEngine \<Rightarrow> string list \<Rightarrow> 'n StreamingParser \<Rightarrow> 'n StreamingParser" where
  "pushAll engine chunks p = foldl (\<lambda>q chunk. snd (push engine chunk q)) p chunks"

definition streamed :: "'n JsEngine \<Rightarrow> string list \<Rightarrow> 'n ParsedOutput" where
  "streamed engine chunks =
     getState (snd (flush engine (pushAll engine chunks createStreamingJsonlParser)))"

text \<open>
  An engine for concrete instances: its \<open>JSON.parse\<close> knows three texts and rejects every
  other one.
\<close>

definition toyEngine :: "nat JsEngine" where
  "toyEngine =
     \<lparr> jsonParse = (\<lambda>s.
         if s = ''{\"type\":\"assistant\"}'' then Inr (JObj [(''type'', JStr ''assistant'')])
         else if s = ''{\"cost\":{\"inputTokens\":7}}''
           then Inr (JObj [(''cost'', JObj [(''inputTokens'', JNum 7)])])
         else if s = ''null'' then Inr JNull
         else Inl ''Unexpected token''),
       nullReadError = ''Cannot read properties of null'' \<rparr>"


section \<open>Results: tracker adapter\<close>

lemma tracker_step_id: "tracker_step p c = p"
  by (cases c) (simp_all add: getTasks_def completeTask_def updateTaskStatus_def)

lemma tracker_run_id: "tracker_run p calls = p"
  unfolding tracker_run_def by (induction calls) (simp_all add: tracker_step_id)

text \<open>
  Claim C4, as stated, fails: a second \<open>completeTask\<close> for the same id, made right after
  a first one, does not report success.
\<close>

theorem completeTask_second_call_counterexample:
  "\<not> tcr_success (fst (completeTask (snd (completeTask fresh_tracker ''task-1'')) ''task-1''))"
  by (simp add: completeTask_def)

text \<open>
  Claim C4, amended: after every call sequence and for every task id,
  \<open>BeadsRustTrackerPlugin.completeTask\<close> returns the same ``Not implemented'' failure
  (never a success) and leaves the plugin as it was; repeating the call is a no-op and
  gives the same result again.
\<close>

theorem completeTask_stub_idempotent:
  "completeTask (tracker_run p calls) ident =
     (\<lparr> tcr_success = False,
        tcr_message = ''beads-rust tracker is not yet able to close tasks ('' @ ident @ '')'',
        tcr_error = Some ''Not implemented'' \<rparr>, tracker_run p calls)
   \<and> tracker_run p calls = p
   \<and> completeTask (snd (completeTask (tracker_run p calls) ident)) ident
       = completeTask (tracker_run p calls) ident"
  by (simp add: tracker_run_id completeTask_def)


section \<open>Results: rate-limit handling\<close>






text \<open>
  Claim C3: when the detector's result carries a retry-after value, the wait before the
  retry is exactly that value, whatever the computed backoff delay is.
\<close>

theorem retryAfter_overrides_backoff:
  assumes "retryAfter det = Some r"
  shows "retryWait cfg det attempt = r
    \<and> (retryCount < maxRetries cfg \<longrightarrow>
           onRateLimit cfg retryCount det = (RetryAfterWait r, Suc retryCount))"
  using assms by (simp add: retryWait_def onRateLimit_def)

theorem retryAfter_overrides_backoff_witness:
  "retryAfter \<lparr> isRateLimit = True, rl_message = Some ''retry after 7s'', retryAfter = Some 7000 \<rparr>
     = Some 7000
   \<and> (0::nat) < maxRetries defaultRateLimitHandling
   \<and> onRateLimit defaultRateLimitHandling 0
        \<lparr> isRateLimit = True, rl_message = Some ''retry after 7s'', retryAfter = Some 7000 \<rparr>
       = (RetryAfterWait 7000, 1)
   \<and> backoffDelay (baseBackoffMs defaultRateLimitHandling)
        (maxBackoffMs defaultRateLimitHandling) 1 = 5000"
  using retryAfter_overrides_backoff
    [of "\<lparr> isRateLimit = True, rl_message = Some ''retry after 7s'', retryAfter = Some 7000 \<rparr>"
        7000 defaultRateLimitHandling 1 0]
  by (simp add: defaultRateLimitHandling_def backoffDelay_def)


section \<open>Results: remote client, bookkeeping of requests\<close>

lemma delete_filter: "AList.delete k xs = filter (\<lambda>e. fst e \<noteq> k) xs"
  by (induction xs) auto

lemma rejectAll_eq:
  "rejectAll ps c =
     c\<lparr> pendingRequests := filter (\<lambda>e. fst e \<notin> fst ` set ps) (pendingRequests c),
        timeouts := filter (\<lambda>t. fst t \<notin> (pr_timeout \<circ> snd) ` set ps) (timeouts c),
        settled := settled c @ map (\<lambda>e. (pr_promise (snd e), Rejected ''Connection closed'')) ps \<rparr>"
proof (induction ps arbitrary: c)
  case Nil
  then show ?case by simp
next
  case (Cons a ps)
  obtain ident pending where a: "a = (ident, pending)" by (cases a)
  show ?case
    unfolding a
    by (simp add: Cons.IH clearTimeout_def settle_def delete_filter conj_commute)
qed

lemma rejectAll_pending:
  "pendingRequests (rejectAll ps c) = filter (\<lambda>e. fst e \<notin> fst ` set ps) (pendingRequests c)"
  by (simp add: rejectAll_eq)

lemma rejectAll_timeouts:
  "timeouts (rejectAll ps c) = filter (\<lambda>t. fst t \<notin> (pr_timeout \<circ> snd) ` set ps) (timeouts c)"
  by (simp add: rejectAll_eq)

lemma rejectAll_settled:
  "settled (rejectAll ps c) =
     settled c @ map (\<lambda>e. (pr_promise (snd e), Rejected ''Connection closed'')) ps"
  by (simp add: rejectAll_eq)

lemma cleanup_pending: "pendingRequests (cleanup c) = []"
  by (simp add: cleanup_def Let_def stopPingInterval_def rejectAll_eq split: option.splits)

lemma cleanup_flags:
  "subscribed (cleanup c) = False" "pingInterval (cleanup c) = False" "ws (cleanup c) = None"
  by (simp_all add: cleanup_def Let_def stopPingInterval_def rejectAll_eq split: option.splits)

lemma cleanup_settled:
  "settled (cleanup c) =
     settled c @ map (\<lambda>e. (pr_promise (snd e), Rejected ''Connection closed'')) (pendingRequests c)"
  by (simp add: cleanup_def Let_def stopPingInterval_def rejectAll_eq split: option.splits)

lemma cleanup_timeouts:
  "timeouts (cleanup c) =
     filter (\<lambda>t. fst t \<notin> (pr_timeout \<circ> snd) ` set (pendingRequests c)) (timeouts c)"
  by (simp add: cleanup_def Let_def stopPingInterval_def rejectAll_eq split: option.splits)

lemma cleanup_same [simp]:
  "token (cleanup c) = token c"
  "status (cleanup c) = status c"
  "sent (cleanup c) = sent c"
  "emitted (cleanup c) = emitted c"
  "connectSettled (cleanup c) = connectSettled c"
  "nextPromise (cleanup c) = nextPromise c"
  "stale (cleanup c) = stale c"
  by (simp_all add: cleanup_def Let_def stopPingInterval_def rejectAll_eq split: option.splits)


lemma client_inv_cong:
  "pendingRequests c' = pendingRequests c \<Longrightarrow> timeouts c' = timeouts c \<Longrightarrow>
   settled c' = settled c \<Longrightarrow> nextPromise c' = nextPromise c \<Longrightarrow>
   client_inv c' = client_inv c"
  by (simp add: client_inv_def)

lemma inv_new: "client_inv (newRemoteClient tok)"
  by (simp add: client_inv_def newRemoteClient_def)

lemma update_fresh: "k \<notin> fst ` set xs \<Longrightarrow> AList.update k v xs = xs @ [(k, v)]"
  by (induction xs) auto

lemma move_promise:
  assumes "distinct (map fst S)" "distinct (map fst T)"
    and "fst ` set S \<inter> fst ` set T = {}"
    and "fst ` set S \<union> fst ` set T = {..< N}"
    and "n \<in> fst ` set T"
  shows "distinct (map fst (S @ [(n, out)]))"
    and "distinct (map fst (filter (\<lambda>t. fst t \<noteq> n) T))"
    and "fst ` set (S @ [(n, out)]) \<inter> fst ` set (filter (\<lambda>t. fst t \<noteq> n) T) = {}"
    and "fst ` set (S @ [(n, out)]) \<union> fst ` set (filter (\<lambda>t. fst t \<noteq> n) T) = {..< N}"
proof -
  from assms(3,5) have nS: "n \<notin> fst ` set S" by blast
  show "distinct (map fst (S @ [(n, out)]))"
    using assms(1) nS by simp
  show "distinct (map fst (filter (\<lambda>t. fst t \<noteq> n) T))"
    using assms(2) by (rule distinct_map_filter)
  have T': "fst ` set (filter (\<lambda>t. fst t \<noteq> n) T) = fst ` set T - {n}"
    by auto
  show "fst ` set (S @ [(n, out)]) \<inter> fst ` set (filter (\<lambda>t. fst t \<noteq> n) T) = {}"
    unfolding T' using assms(3) by auto
  show "fst ` set (S @ [(n, out)]) \<union> fst ` set (filter (\<lambda>t. fst t \<noteq> n) T) = {..< N}"
    unfolding T' using assms(4,5) by auto
qed

lemma client_invD:
  assumes "client_inv c"
  shows "distinct (map fst (pendingRequests c))"
    and "timeouts c = map (\<lambda>e. (pr_promise (snd e), fst e)) (pendingRequests c)"
    and "list_all (\<lambda>e. pr_timeout (snd e) = pr_promise (snd e)) (pendingRequests c)"
    and "distinct (map fst (timeouts c))"
    and "distinct (map fst (settled c))"
    and "fst ` set (settled c) \<inter> fst ` set (timeouts c) = {}"
    and "fst ` set (settled c) \<union> fst ` set (timeouts c) = {..< nextPromise c}"
  using assms unfolding client_inv_def by blast+

lemma distinct_promises:
  assumes "client_inv c"
  shows "distinct (map (\<lambda>e. pr_promise (snd e)) (pendingRequests c))"
proof -
  have "map fst (timeouts c) = map (\<lambda>e. pr_promise (snd e)) (pendingRequests c)"
    by (subst client_invD(2) [OF assms]) (simp add: comp_def)
  with client_invD(4) [OF assms] show ?thesis by simp
qed

lemma timer_of_entry:
  assumes "client_inv c" and "(k, p) \<in> set (pendingRequests c)"
  shows "filter (\<lambda>t. fst t \<noteq> pr_promise p) (timeouts c)
         = map (\<lambda>e. (pr_promise (snd e), fst e)) (filter (\<lambda>e. fst e \<noteq> k) (pendingRequests c))"
proof -
  let ?ps = "pendingRequests c"
  have i1: "inj_on fst (set ?ps)"
    using client_invD(1) [OF assms(1)] by (simp add: distinct_map)
  have i2: "inj_on (\<lambda>e. pr_promise (snd e)) (set ?ps)"
    using distinct_promises [OF assms(1)] by (simp add: distinct_map)
  have eq: "(pr_promise (snd e) \<noteq> pr_promise p) = (fst e \<noteq> k)" if e: "e \<in> set ?ps" for e
  proof -
    have "fst e = k \<Longrightarrow> e = (k, p)"
      using inj_onD [OF i1 _ e assms(2)] by simp
    moreover have "pr_promise (snd e) = pr_promise p \<Longrightarrow> e = (k, p)"
      using inj_onD [OF i2 _ e assms(2)] by simp
    ultimately show ?thesis by (metis fst_conv snd_conv)
  qed
  have "filter ((\<lambda>t. fst t \<noteq> pr_promise p) \<circ> (\<lambda>e. (pr_promise (snd e), fst e))) ?ps
        = filter (\<lambda>e. fst e \<noteq> k) ?ps"
    by (rule filter_cong) (simp_all add: eq)
  then have "filter (\<lambda>t. fst t \<noteq> pr_promise p) (map (\<lambda>e. (pr_promise (snd e), fst e)) ?ps)
        = map (\<lambda>e. (pr_promise (snd e), fst e)) (filter (\<lambda>e. fst e \<noteq> k) ?ps)"
    by (simp only: filter_map)
  then show ?thesis
    by (subst client_invD(2) [OF assms(1)])
qed

lemma inv_remove_entry:
  assumes "client_inv c" and "(k, p) \<in> set (pendingRequests c)"
  shows "client_inv (c\<lparr> timeouts := filter (\<lambda>t. fst t \<noteq> pr_promise p) (timeouts c),
                        pendingRequests := filter (\<lambda>e. fst e \<noteq> k) (pendingRequests c),
                        settled := settled c @ [(pr_promise p, out)] \<rparr>)"
proof -
  have "(pr_promise p, k) \<in> set (timeouts c)"
    by (subst client_invD(2) [OF assms(1)]) (use assms(2) in force)
  then have n: "pr_promise p \<in> fst ` set (timeouts c)"
    by force
  note pre = client_invD(5,4,6,7) [OF assms(1)]
  note mv = move_promise [OF pre n]
  have k1: "distinct (map fst (filter (\<lambda>e. fst e \<noteq> k) (pendingRequests c)))"
    using client_invD(1) [OF assms(1)] by (rule distinct_map_filter)
  have k3: "list_all (\<lambda>e. pr_timeout (snd e) = pr_promise (snd e)) (filter (\<lambda>e. fst e \<noteq> k) (pendingRequests c))"
    using client_invD(3) [OF assms(1)] by (simp add: list_all_iff)
  show ?thesis
    unfolding client_inv_def
    using k1 k3 mv timer_of_entry [OF assms]
    by simp
qed


lemma inv_cleanup:
  assumes "client_inv c"
  shows "client_inv (cleanup c)"
proof -
  let ?ps = "pendingRequests c"
  note t = client_invD(2) [OF assms]
  have to: "pr_timeout (snd e) = pr_promise (snd e)" if "e \<in> set ?ps" for e
    using client_invD(3) [OF assms] that by (simp add: list_all_iff)
  have "filter (\<lambda>t. fst t \<notin> (pr_timeout \<circ> snd) ` set ?ps)
          (map (\<lambda>e. (pr_promise (snd e), fst e)) ?ps) = []"
    by (auto simp: filter_empty_conv to image_iff)
  then have t': "timeouts (cleanup c) = []"
    unfolding cleanup_timeouts by (subst t)
  have "map fst (timeouts c) = map (\<lambda>e. pr_promise (snd e)) ?ps"
    by (subst t) (simp add: comp_def)
  then have s': "map fst (settled (cleanup c)) = map fst (settled c) @ map fst (timeouts c)"
    by (simp add: cleanup_settled comp_def)
  have d: "distinct (map fst (settled (cleanup c)))"
    unfolding s' using client_invD(4,5,6) [OF assms] by simp
  have "set (map fst (settled (cleanup c))) = {..< nextPromise c}"
    unfolding s' using client_invD(7) [OF assms] by simp
  then have u: "fst ` set (settled (cleanup c)) = {..< nextPromise c}"
    by simp
  show ?thesis
    unfolding client_inv_def using d u by (simp add: t' cleanup_pending)
qed

lemma resume_fields [simp]:
  "pendingRequests (resume w m c) = pendingRequests c"
  "timeouts (resume w m c) = timeouts c"
  "settled (resume w m c) = settled c"
  "nextPromise (resume w m c) = nextPromise c"
  "sent (resume w m c) = sent c"
  "emitted (resume w m c) = emitted c"
  "status (resume w m c) = status c"
  "ws (resume w m c) = ws c"
  by (cases w; simp)+

lemma inv_request:
  assumes "client_inv c" and "uuid \<notin> fst ` set (pendingRequests c)"
  shows "client_inv (snd (request who uuid now c))"
proof -
  let ?n = "nextPromise c"
  note i = client_invD [OF assms(1)]
  have n: "?n \<notin> fst ` set (settled c)" "?n \<notin> fst ` set (timeouts c)"
    using i(7) by blast+
  have s: "{..< Suc ?n} = insert ?n {..< ?n}"
    by auto
  show ?thesis
  proof (cases "status c \<noteq> Connected \<or> ws c = None")
    case True
    then have r: "snd (request who uuid now c)
        = c\<lparr> nextPromise := Suc ?n, settled := settled c @ [(?n, Rejected ''Not connected'')] \<rparr>"
      by (simp add: request_def Let_def settle_def)
    show ?thesis
      unfolding r client_inv_def
    proof (intro conjI)
      show "fst ` set (settled (c\<lparr>nextPromise := Suc ?n, settled := settled c @ [(?n, Rejected ''Not connected'')]\<rparr>))
            \<union> fst ` set (timeouts (c\<lparr>nextPromise := Suc ?n, settled := settled c @ [(?n, Rejected ''Not connected'')]\<rparr>))
            = {..< nextPromise (c\<lparr>nextPromise := Suc ?n, settled := settled c @ [(?n, Rejected ''Not connected'')]\<rparr>)}"
        using i(7) by (simp add: s)
    qed (use i(1,2,3,4,5,6) n in simp_all)
  next
    case False
    let ?p = "\<lparr> pr_promise = ?n, pr_caller = who, pr_timeout = ?n \<rparr>"
    let ?c' = "c\<lparr> nextPromise := Suc ?n, timeouts := timeouts c @ [(?n, uuid)],
                  pendingRequests := pendingRequests c @ [(uuid, ?p)],
                  sent := sent c @ [(callMessage who)\<lparr> m_id := uuid, m_timestamp := now \<rparr>] \<rparr>"
    from False have "\<not> (status c \<noteq> Connected \<or> ws c = None)" .
    then have r: "snd (request who uuid now c) = ?c'"
      unfolding request_def Let_def
      by (simp only: if_False snd_conv) (simp add: ws_send_def update_fresh [OF assms(2)])
    show ?thesis
      unfolding r client_inv_def
    proof (intro conjI)
      show "distinct (map fst (pendingRequests ?c'))"
        using i(1) assms(2) by simp
      show "timeouts ?c' = map (\<lambda>e. (pr_promise (snd e), fst e)) (pendingRequests ?c')"
        using i(2) by simp
      show "list_all (\<lambda>e. pr_timeout (snd e) = pr_promise (snd e)) (pendingRequests ?c')"
        using i(3) by simp
      show "distinct (map fst (timeouts ?c'))"
        using i(4) n(2) by simp
      show "distinct (map fst (settled ?c'))"
        using i(5) by simp
      show "fst ` set (settled ?c') \<inter> fst ` set (timeouts ?c') = {}"
        using i(6) n(1) by simp
      show "fst ` set (settled ?c') \<union> fst ` set (timeouts ?c') = {..< nextPromise ?c'}"
        using i(7) by (simp add: s)
    qed
  qed
qed

lemma inv_resolve:
  assumes "client_inv c" and "map_of (pendingRequests c) k = Some p"
  shows "client_inv ((clearTimeout (pr_timeout p) c)
           \<lparr> pendingRequests := AList.delete k (pendingRequests (clearTimeout (pr_timeout p) c)),
             settled := settled c @ [(pr_promise p, out)] \<rparr>)"
proof -
  from assms(2) have mem: "(k, p) \<in> set (pendingRequests c)"
    by (rule map_of_SomeD)
  then have to: "pr_timeout p = pr_promise p"
    using client_invD(3) [OF assms(1)] by (auto simp: list_all_iff)
  have "(clearTimeout (pr_timeout p) c)
           \<lparr> pendingRequests := AList.delete k (pendingRequests (clearTimeout (pr_timeout p) c)),
             settled := settled c @ [(pr_promise p, out)] \<rparr>
        = c\<lparr> timeouts := filter (\<lambda>t. fst t \<noteq> pr_promise p) (timeouts c),
             pendingRequests := filter (\<lambda>e. fst e \<noteq> k) (pendingRequests c),
             settled := settled c @ [(pr_promise p, out)] \<rparr>"
    by (simp add: clearTimeout_def delete_filter to)
  then show ?thesis
    using inv_remove_entry [OF assms(1) mem, of out] by simp
qed

lemma inv_handleMessage:
  assumes "client_inv c"
  shows "client_inv (handleMessage msg c)"
proof (cases "map_of (pendingRequests c) (m_id msg)")
  case (Some p)
  have "client_inv (handleMessage msg c)
        = client_inv ((clearTimeout (pr_timeout p) c)
           \<lparr> pendingRequests := AList.delete (m_id msg) (pendingRequests (clearTimeout (pr_timeout p) c)),
             settled := settled c @ [(pr_promise p, Resolved msg)] \<rparr>)"
    by (rule client_inv_cong) (simp_all add: handleMessage_def Some Let_def settle_def clearTimeout_def)
  with inv_resolve [OF assms Some] show ?thesis by simp
next
  case None
  have c: "client_inv (cleanup (eventHandler ev (c\<lparr> status := Disconnected \<rparr>)))" for ev
  proof (rule inv_cleanup)
    have "client_inv (eventHandler ev (c\<lparr> status := Disconnected \<rparr>)) = client_inv c"
      by (rule client_inv_cong) (simp_all add: eventHandler_def)
    with assms show "client_inv (eventHandler ev (c\<lparr> status := Disconnected \<rparr>))" by simp
  qed
  have "client_inv (handleMessage msg c) = client_inv c"
    if "\<not> (m_type msg = ''auth_response'' \<and> m_success msg \<noteq> Some True)"
    by (rule client_inv_cong)
       (use that in \<open>auto simp add: handleMessage_def None Let_def eventHandler_def
          startPingInterval_def stopPingInterval_def\<close>)
  moreover have "client_inv (handleMessage msg c)"
    if "m_type msg = ''auth_response'' \<and> m_success msg \<noteq> Some True"
  proof -
    let ?c3 = "cleanup (eventHandler (EvDisconnected (Some (case m_error msg of Some e \<Rightarrow> e | None \<Rightarrow> ''Authentication failed''))) (c\<lparr> status := Disconnected \<rparr>))"
    have "client_inv (handleMessage msg c) = client_inv ?c3"
      by (rule client_inv_cong) (use that in \<open>simp_all add: handleMessage_def None Let_def\<close>)
    with c show ?thesis by simp
  qed
  ultimately show ?thesis using assms by blast
qed

lemma inv_requestTimeout:
  assumes "client_inv c" and "map_of (timeouts c) h = Some ident"
  shows "client_inv (requestTimeout h ident (clearTimeout h c))"
proof -
  from assms(2) have "(h, ident) \<in> set (timeouts c)"
    by (rule map_of_SomeD)
  then obtain e where e: "e \<in> set (pendingRequests c)" "pr_promise (snd e) = h" "fst e = ident"
    by (subst (asm) client_invD(2) [OF assms(1)]) auto
  then have mem: "(ident, snd e) \<in> set (pendingRequests c)"
    by (metis prod.collapse)
  have "client_inv (requestTimeout h ident (clearTimeout h c))
        = client_inv (c\<lparr> timeouts := filter (\<lambda>t. fst t \<noteq> pr_promise (snd e)) (timeouts c),
                        pendingRequests := filter (\<lambda>e. fst e \<noteq> ident) (pendingRequests c),
                        settled := settled c @ [(pr_promise (snd e), Rejected ''Request timeout'')] \<rparr>)"
    by (rule client_inv_cong)
       (simp_all add: requestTimeout_def clearTimeout_def settle_def Let_def delete_filter e(2))
  with inv_remove_entry [OF assms(1) mem] show ?thesis by simp
qed

lemma inv_fire:
  assumes "client_inv c" and "fire a c = Some c'"
  shows "client_inv c'"
proof (cases a)
  case (Connect ctor)
  have "client_inv (connect ctor c) = client_inv c"
    by (rule client_inv_cong)
       (simp_all add: connect_def Let_def eventHandler_def split: option.splits)
  with assms Connect show ?thesis by simp
next
  case Disconnect
  have "client_inv (disconnect c) = client_inv (cleanup c)"
    by (rule client_inv_cong) (simp_all add: disconnect_def eventHandler_def)
  with assms Disconnect inv_cleanup [of c] show ?thesis by simp
next
  case (Send msg)
  have "client_inv (send msg c) = client_inv c"
    by (rule client_inv_cong) (simp_all add: send_def ws_send_def)
  with assms Send show ?thesis by simp
next
  case (Call who uuid now)
  with assms show ?thesis
    by (auto split: if_splits intro: inv_request)
next
  case (SocketOpen uuid now)
  have "client_inv (ws_onopen uuid now (c\<lparr> ws := Some OPEN \<rparr>)) = client_inv c"
    by (rule client_inv_cong) (simp_all add: ws_onopen_def authenticate_def Let_def ws_send_def)
  with assms SocketOpen show ?thesis by (simp split: if_splits)
next
  case (SocketMessage parsed)
  with assms show ?thesis
    by (auto simp: ws_onmessage_def split: if_splits option.splits intro: inv_handleMessage)
next
  case SocketError
  have "client_inv (ws_onerror (c\<lparr> ws := Some CLOSED \<rparr>)) = client_inv c"
    by (rule client_inv_cong) (simp_all add: ws_onerror_def Let_def eventHandler_def)
  with assms SocketError show ?thesis by (simp split: if_splits)
next
  case SocketClose
  have "client_inv (c\<lparr> ws := Some CLOSED \<rparr>) = client_inv c"
    by (rule client_inv_cong) simp_all
  with assms(1) have "client_inv (cleanup (c\<lparr> ws := Some CLOSED \<rparr>))"
    by (simp add: inv_cleanup)
  moreover have "client_inv (ws_onclose (c\<lparr> ws := Some CLOSED \<rparr>))
                 = client_inv (cleanup (c\<lparr> ws := Some CLOSED \<rparr>))"
    by (rule client_inv_cong) (simp_all add: ws_onclose_def Let_def eventHandler_def)
  ultimately show ?thesis using assms(2) SocketClose by (simp split: if_splits)
next
  case StaleSocketClose
  have "client_inv (c\<lparr> stale := stale c - 1 \<rparr>) = client_inv c"
    by (rule client_inv_cong) simp_all
  with assms(1) have "client_inv (cleanup (c\<lparr> stale := stale c - 1 \<rparr>))"
    by (simp add: inv_cleanup)
  moreover have "client_inv (ws_onclose (c\<lparr> stale := stale c - 1 \<rparr>))
                 = client_inv (cleanup (c\<lparr> stale := stale c - 1 \<rparr>))"
    by (rule client_inv_cong) (simp_all add: ws_onclose_def Let_def eventHandler_def)
  ultimately show ?thesis using assms(2) StaleSocketClose by (simp split: if_splits)
next
  case (PingTick uuid now)
  have "client_inv (pingTick uuid now c) = client_inv c"
    by (rule client_inv_cong) (simp_all add: pingTick_def ws_send_def)
  with assms PingTick show ?thesis by (simp split: if_splits)
next
  case (RequestTimeout h)
  with assms show ?thesis
    by (auto split: option.splits intro: inv_requestTimeout)
qed

lemma inv_run:
  "client_inv c \<Longrightarrow> run evs c = Some c' \<Longrightarrow> client_inv c'"
proof (induction evs arbitrary: c)
  case Nil
  then show ?case by simp
next
  case (Cons a evs)
  then show ?case
    by (auto split: option.splits dest: inv_fire)
qed

lemma inv_reachable: "run evs (newRemoteClient tok) = Some c \<Longrightarrow> client_inv c"
  using inv_run [OF inv_new] .

lemma busyRun_result: "run busyRun (newRemoteClient ''secret'') = Some busyClient"
  by (simp add: busyRun_def busyClient_def newRemoteClient_def authOk_def message_def
      connect_def eventHandler_def ws_onopen_def authenticate_def ws_send_def ws_onmessage_def
      handleMessage_def startPingInterval_def stopPingInterval_def request_def Let_def)

lemma subscribedRun_result: "run subscribedRun (newRemoteClient ''secret'') = Some subscribedClient"
  by (simp add: subscribedRun_def subscribedClient_def newRemoteClient_def authOk_def message_def
      subscribeOk_def settle_def clearTimeout_def
      connect_def eventHandler_def ws_onopen_def authenticate_def ws_send_def ws_onmessage_def
      handleMessage_def startPingInterval_def stopPingInterval_def request_def Let_def)


lemma resume_token [simp]: "token (resume w m c) = token c"
  by (cases w) simp_all

lemma handleMessage_sent [simp]: "sent (handleMessage msg c) = sent c"
  by (simp add: handleMessage_def Let_def settle_def clearTimeout_def eventHandler_def
      startPingInterval_def stopPingInterval_def split: option.splits)

lemma handleMessage_token [simp]: "token (handleMessage msg c) = token c"
  by (simp add: handleMessage_def Let_def settle_def clearTimeout_def eventHandler_def
      startPingInterval_def stopPingInterval_def split: option.splits)








lemma known_reasons [simp]:
  "''Connection closed'' \<in> rejectionReasons"
  "''Request timeout'' \<in> rejectionReasons"
  "''Not connected'' \<in> rejectionReasons"
  by (simp_all add: rejectionReasons_def)

lemma cleanup_known:
  assumes "list_all (\<lambda>s. knownOutcome (snd s)) (settled c)"
  shows "list_all (\<lambda>s. knownOutcome (snd s)) (settled (cleanup c))"
proof -
  have "list_all (\<lambda>s. knownOutcome (snd s))
          (map (\<lambda>e. (pr_promise (snd e), Rejected ''Connection closed'')) ps)"
    for ps :: "(string \<times> PendingRequest) list"
    by (induction ps) simp_all
  with assms show ?thesis
    by (simp add: cleanup_settled)
qed

lemma handleMessage_settled_known:
  assumes "list_all (\<lambda>s. knownOutcome (snd s)) (settled c)"
  shows "list_all (\<lambda>s. knownOutcome (snd s)) (settled (handleMessage msg c))"
proof (cases "map_of (pendingRequests c) (m_id msg)")
  case (Some p)
  then show ?thesis
    using assms by (simp add: handleMessage_def Let_def settle_def clearTimeout_def)
next
  case None
  then show ?thesis
    using assms cleanup_known [of "eventHandler ev (c\<lparr> status := Disconnected \<rparr>)" for ev]
    by (simp add: handleMessage_def Let_def eventHandler_def startPingInterval_def
        stopPingInterval_def)
qed

lemma fire_settled_known:
  assumes "list_all (\<lambda>s. knownOutcome (snd s)) (settled c)" and "fire a c = Some c'"
  shows "list_all (\<lambda>s. knownOutcome (snd s)) (settled c')"
proof (cases a)
  case (Connect ctor)
  with assms show ?thesis
    by (auto simp: connect_def Let_def eventHandler_def split: option.splits)
next
  case Disconnect
  with assms cleanup_known [of c] show ?thesis
    by (auto simp: disconnect_def eventHandler_def)
next
  case (Send msg)
  with assms show ?thesis by (auto simp: send_def ws_send_def)
next
  case (Call who uuid now)
  with assms show ?thesis
    by (auto simp: request_def Let_def settle_def ws_send_def split: if_splits)
next
  case (SocketOpen uuid now)
  with assms show ?thesis
    by (auto simp: ws_onopen_def authenticate_def ws_send_def Let_def split: if_splits)
next
  case (SocketMessage parsed)
  with assms show ?thesis
    by (auto simp: ws_onmessage_def handleMessage_settled_known split: if_splits option.splits)
next
  case SocketError
  with assms show ?thesis
    by (auto simp: ws_onerror_def Let_def eventHandler_def split: if_splits)
next
  case SocketClose
  with assms cleanup_known [of "c\<lparr> ws := Some CLOSED \<rparr>"] show ?thesis
    by (auto simp: ws_onclose_def Let_def eventHandler_def split: if_splits)
next
  case StaleSocketClose
  with assms cleanup_known [of "c\<lparr> stale := stale c - 1 \<rparr>"] show ?thesis
    by (auto simp: ws_onclose_def Let_def eventHandler_def split: if_splits)
next
  case (PingTick uuid now)
  with assms show ?thesis
    by (auto simp: pingTick_def ws_send_def split: if_splits)
next
  case (RequestTimeout h)
  with assms show ?thesis
    by (auto simp: requestTimeout_def clearTimeout_def settle_def Let_def
        split: option.splits)
qed

lemma run_settled_known:
  "list_all (\<lambda>s. knownOutcome (snd s)) (settled c) \<Longrightarrow> run evs c = Some c' \<Longrightarrow>
   list_all (\<lambda>s. knownOutcome (snd s)) (settled c')"
proof (induction evs arbitrary: c)
  case Nil
  then show ?case by simp
next
  case (Cons a evs)
  then show ?case
    by (auto split: option.splits dest: fire_settled_known)
qed

lemma reachable_settled_known:
  assumes "run evs (newRemoteClient tok) = Some c"
  shows "list_all (\<lambda>s. knownOutcome (snd s)) (settled c)"
  by (rule run_settled_known [OF _ assms]) (simp add: newRemoteClient_def)

lemma map_of_filter_key: "map_of (filter (\<lambda>e. fst e \<noteq> k) xs) k = None"
  by (induction xs) auto

lemma resolve_step:
  assumes "map_of (pendingRequests c) (m_id msg) = Some p"
  shows "settled (handleMessage msg c) = settled c @ [(pr_promise p, Resolved msg)]
       \<and> map_of (pendingRequests (handleMessage msg c)) (m_id msg) = None
       \<and> map_of (timeouts (handleMessage msg c)) (pr_timeout p) = None"
  using assms
  by (simp add: handleMessage_def Let_def settle_def clearTimeout_def delete_filter
      map_of_filter_key)

lemma timeout_step:
  assumes "map_of (timeouts c) h = Some ident"
  shows "fire (RequestTimeout h) c = Some (requestTimeout h ident (clearTimeout h c))
       \<and> settled (requestTimeout h ident (clearTimeout h c))
           = settled c @ [(h, Rejected ''Request timeout'')]
       \<and> map_of (pendingRequests (requestTimeout h ident (clearTimeout h c))) ident = None
       \<and> map_of (timeouts (requestTimeout h ident (clearTimeout h c))) h = None"
  using assms
  by (simp add: requestTimeout_def Let_def settle_def clearTimeout_def delete_filter
      map_of_filter_key)

lemma request_step:
  assumes "status c = Connected" and "ws c \<noteq> None"
  shows "fst (request who uuid now c) = nextPromise c
       \<and> map_of (pendingRequests (snd (request who uuid now c))) uuid
           = Some \<lparr> pr_promise = nextPromise c, pr_caller = who, pr_timeout = nextPromise c \<rparr>
       \<and> timeouts (snd (request who uuid now c)) = timeouts c @ [(nextPromise c, uuid)]
       \<and> settled (snd (request who uuid now c)) = settled c
       \<and> sent (snd (request who uuid now c))
           = sent c @ [(callMessage who)\<lparr> m_id := uuid, m_timestamp := now \<rparr>]"
  using assms
  by (auto simp: request_def Let_def ws_send_def update_conv')


section \<open>Results: remote client\<close>

text \<open>
  Claim C10: while the status is \<open>connecting\<close> or \<open>connected\<close>, \<open>connect\<close> returns at once
  and leaves the client as it was: the socket field, the status and the events handed to
  the event handler are unchanged, whatever the \<open>WebSocket\<close> constructor would have done.
\<close>

theorem connect_noop_unless_disconnected:
  assumes "status c = Connecting \<or> status c = Connected"
  shows "connect ctor c = c
       \<and> ws (connect ctor c) = ws c
       \<and> status (connect ctor c) = status c
       \<and> emitted (connect ctor c) = emitted c
       \<and> fire (Connect ctor) c = Some c"
  using assms by (auto simp: connect_def)

theorem connect_noop_unless_disconnected_witness:
  "status busyClient = Connected
   \<and> connect None busyClient = busyClient
   \<and> emitted (connect (Some (Some ''bad url'')) busyClient) = [EvConnecting, EvConnected]"
proof -
  have h: "status busyClient = Connecting \<or> status busyClient = Connected"
    by (simp add: busyClient_def)
  from connect_noop_unless_disconnected [OF h, of None]
    connect_noop_unless_disconnected [OF h, of "Some (Some ''bad url'')"]
  show ?thesis by (simp add: busyClient_def)
qed

text \<open>
  Claim C5: a received message of type \<open>engine_event\<close> whose id matches no pending request
  is handed to the event handler as one event of kind \<open>engine_event\<close> carrying the wrapped
  event unchanged; nothing else happens, so it is not delivered as a \<open>message\<close> event. This
  holds in every state of the client, in particular after a successful \<open>subscribe\<close>.
\<close>

theorem engine_event_forwarded:
  assumes "m_type msg = ''engine_event''"
    and "map_of (pendingRequests c) (m_id msg) = None"
  shows "handleMessage msg c = c\<lparr> emitted := emitted c @ [EvEngineEvent (m_event msg)] \<rparr>
       \<and> emitted (ws_onmessage (Some msg) c) = emitted c @ [EvEngineEvent (m_event msg)]
       \<and> (ws c = Some OPEN \<longrightarrow>
            fire (SocketMessage (Some msg)) c
              = Some (c\<lparr> emitted := emitted c @ [EvEngineEvent (m_event msg)] \<rparr>))"
  using assms by (simp add: handleMessage_def ws_onmessage_def eventHandler_def)

theorem engine_event_forwarded_witness:
  "run subscribedRun (newRemoteClient ''secret'') = Some subscribedClient
   \<and> subscribed subscribedClient
   \<and> m_type taskEvent = ''engine_event''
   \<and> map_of (pendingRequests subscribedClient) (m_id taskEvent) = None
   \<and> emitted (ws_onmessage (Some taskEvent) subscribedClient)
       = [EvConnecting, EvConnected, EvEngineEvent (Some 42)]"
proof -
  have t: "m_type taskEvent = ''engine_event''"
    by (simp add: taskEvent_def message_def)
  have p: "map_of (pendingRequests subscribedClient) (m_id taskEvent) = None"
    by (simp add: subscribedClient_def)
  from engine_event_forwarded [OF t p] subscribedRun_result t p
  show ?thesis by (simp add: subscribedClient_def taskEvent_def message_def)
qed

text \<open>
  Claim C9: \<open>cleanup\<close>, and so \<open>disconnect\<close> and the socket's close handler, rejects every
  pending request with ``Connection closed'', in the order of the map, and leaves the map
  empty, the subscribed flag false and the ping timer stopped. When \<open>disconnect\<close> or a
  socket close happens in a state the client can reach, no request timer stays armed
  afterwards and every promise that \<open>request\<close> ever returned is settled, each once.
\<close>

theorem cleanup_rejects_every_pending_request:
  "pendingRequests (cleanup c) = [] \<and> subscribed (cleanup c) = False
   \<and> pingInterval (cleanup c) = False \<and> ws (cleanup c) = None
   \<and> settled (cleanup c) =
       settled c @ map (\<lambda>e. (pr_promise (snd e), Rejected ''Connection closed'')) (pendingRequests c)
   \<and> pendingRequests (disconnect c) = [] \<and> subscribed (disconnect c) = False
   \<and> pingInterval (disconnect c) = False \<and> status (disconnect c) = Disconnected
   \<and> settled (disconnect c) =
       settled c @ map (\<lambda>e. (pr_promise (snd e), Rejected ''Connection closed'')) (pendingRequests c)
   \<and> pendingRequests (ws_onclose c) = [] \<and> subscribed (ws_onclose c) = False
   \<and> pingInterval (ws_onclose c) = False \<and> status (ws_onclose c) \<noteq> Connected
   \<and> settled (ws_onclose c) =
       settled c @ map (\<lambda>e. (pr_promise (snd e), Rejected ''Connection closed'')) (pendingRequests c)
   \<and> (run evs (newRemoteClient tok) = Some c
        \<and> (a = Disconnect \<or> a = SocketClose \<or> a = StaleSocketClose)
        \<and> fire a c = Some c' \<longrightarrow>
        pendingRequests c' = [] \<and> timeouts c' = []
        \<and> fst ` set (settled c') = {..< nextPromise c'}
        \<and> distinct (map fst (settled c'))
        \<and> settled c' =
            settled c @ map (\<lambda>e. (pr_promise (snd e), Rejected ''Connection closed'')) (pendingRequests c))"
proof -
  have a: "pendingRequests (cleanup x) = [] \<and> subscribed (cleanup x) = False
   \<and> pingInterval (cleanup x) = False \<and> ws (cleanup x) = None
   \<and> settled (cleanup x) =
       settled x @ map (\<lambda>e. (pr_promise (snd e), Rejected ''Connection closed'')) (pendingRequests x)"
    for x :: "'a RemoteClient"
    by (simp add: cleanup_pending cleanup_flags cleanup_settled)
  have b: "pendingRequests (disconnect x) = [] \<and> subscribed (disconnect x) = False
   \<and> pingInterval (disconnect x) = False \<and> status (disconnect x) = Disconnected
   \<and> settled (disconnect x) =
       settled x @ map (\<lambda>e. (pr_promise (snd e), Rejected ''Connection closed'')) (pendingRequests x)"
    for x :: "'a RemoteClient"
    by (simp add: disconnect_def eventHandler_def cleanup_pending cleanup_flags cleanup_settled)
  have d: "pendingRequests (ws_onclose x) = [] \<and> subscribed (ws_onclose x) = False
   \<and> pingInterval (ws_onclose x) = False \<and> status (ws_onclose x) \<noteq> Connected
   \<and> settled (ws_onclose x) =
       settled x @ map (\<lambda>e. (pr_promise (snd e), Rejected ''Connection closed'')) (pendingRequests x)"
    for x :: "'a RemoteClient"
    by (simp add: ws_onclose_def Let_def eventHandler_def cleanup_pending cleanup_flags cleanup_settled)
  have e: "pendingRequests c' = [] \<and> timeouts c' = []
        \<and> fst ` set (settled c') = {..< nextPromise c'}
        \<and> distinct (map fst (settled c'))
        \<and> settled c' =
            settled c @ map (\<lambda>e. (pr_promise (snd e), Rejected ''Connection closed'')) (pendingRequests c)"
    if r: "run evs (newRemoteClient tok) = Some c"
      and k: "a = Disconnect \<or> a = SocketClose \<or> a = StaleSocketClose"
      and f: "fire a c = Some c'"
  proof -
    note i = client_invD [OF inv_fire [OF inv_reachable [OF r] f]]
    have p: "pendingRequests c' = []"
      and s: "settled c' =
            settled c @ map (\<lambda>e. (pr_promise (snd e), Rejected ''Connection closed'')) (pendingRequests c)"
      using k f b [of c] d [of "c\<lparr> ws := Some CLOSED \<rparr>"] d [of "c\<lparr> stale := stale c - 1 \<rparr>"]
      by (auto split: if_splits)
    have t: "timeouts c' = []"
      using i(2) by (simp add: p)
    have "fst ` set (settled c') = {..< nextPromise c'}"
      using i(7) by (simp add: t)
    with p t s i(5) show ?thesis by simp
  qed
  from a [of c] b [of c] d [of c] e show ?thesis by blast
qed

theorem cleanup_rejects_every_pending_request_witness:
  "run busyRun (newRemoteClient ''secret'') = Some busyClient
   \<and> pendingRequests busyClient \<noteq> [] \<and> pingInterval busyClient
   \<and> fire Disconnect busyClient = Some (disconnect busyClient)
   \<and> settled (disconnect busyClient)
       = [(0, Rejected ''Connection closed''), (1, Rejected ''Connection closed'')]
   \<and> pendingRequests (disconnect busyClient) = []
   \<and> timeouts (disconnect busyClient) = []
   \<and> \<not> pingInterval (disconnect busyClient)
   \<and> fst ` set (settled (disconnect busyClient)) = {0, 1}"
proof -
  have f: "pendingRequests busyClient =
             [(''u-1'', \<lparr> pr_promise = 0, pr_caller = CallGetState, pr_timeout = 0 \<rparr>),
              (''u-2'', \<lparr> pr_promise = 1, pr_caller = CallPause, pr_timeout = 1 \<rparr>)]"
    "settled busyClient = []" "pingInterval busyClient"
    by (simp_all add: busyClient_def)
  have g: "fire Disconnect busyClient = Some (disconnect busyClient)"
    by simp
  from cleanup_rejects_every_pending_request
    [of busyClient busyRun "''secret''" Disconnect "disconnect busyClient"]
    busyRun_result g
  show ?thesis by (simp add: f)
qed



text \<open>
  Claim C1, as stated, fails: a call of \<open>request\<close> on a client that is not connected is
  rejected at once with ``Not connected''. No timeout and no close of a connection is
  involved, no id enters the pending map and nothing is transmitted.
\<close>

theorem request_not_connected_counterexample:
  "settled (snd (request CallGetState ''u-1'' ''t0'' (newRemoteClient ''secret'' :: nat RemoteClient)))
     = [(0, Rejected ''Not connected'')]
   \<and> pendingRequests (snd (request CallGetState ''u-1'' ''t0'' (newRemoteClient ''secret'' :: nat RemoteClient))) = []
   \<and> sent (snd (request CallGetState ''u-1'' ''t0'' (newRemoteClient ''secret'' :: nat RemoteClient))) = []"
  by (simp add: request_def newRemoteClient_def Let_def settle_def)

text \<open>
  Claim C1, amended: in every state the client can reach, each promise returned by
  \<open>request\<close> has been settled at most once, and a promise not yet settled has its timer
  armed and its entry in the pending map; the only rejections are ``Request timeout'',
  ``Connection closed'' and ``Not connected''. A call made while connected registers the
  fresh id with a new promise and its timer and transmits the message under that id; a
  call made in any other state is rejected at once with ``Not connected'' and registers
  nothing. A received message whose id is pending resolves that promise with the message,
  removes the id from the map and disarms the timer, so a later message with the same id
  finds no entry; a timer that fires rejects its promise with ``Request timeout'' and removes
  the id. (Rejection of every pending request when the connection closes is claim C9.)
\<close>

theorem request_settles_once:
  assumes "run evs (newRemoteClient tok) = Some c"
  shows "distinct (map fst (settled c))
   \<and> fst ` set (settled c) \<union> fst ` set (timeouts c) = {..< nextPromise c}
   \<and> fst ` set (settled c) \<inter> fst ` set (timeouts c) = {}
   \<and> timeouts c = map (\<lambda>e. (pr_promise (snd e), fst e)) (pendingRequests c)
   \<and> list_all (\<lambda>s. knownOutcome (snd s)) (settled c)
   \<and> (status c = Connected \<and> ws c \<noteq> None \<longrightarrow>
        fst (request who uuid now c) = nextPromise c
      \<and> map_of (pendingRequests (snd (request who uuid now c))) uuid
          = Some \<lparr> pr_promise = nextPromise c, pr_caller = who, pr_timeout = nextPromise c \<rparr>
      \<and> timeouts (snd (request who uuid now c)) = timeouts c @ [(nextPromise c, uuid)]
      \<and> settled (snd (request who uuid now c)) = settled c
      \<and> sent (snd (request who uuid now c))
          = sent c @ [(callMessage who)\<lparr> m_id := uuid, m_timestamp := now \<rparr>])
   \<and> (\<not> (status c = Connected \<and> ws c \<noteq> None) \<longrightarrow>
        request who uuid now c =
          (nextPromise c,
           c\<lparr> nextPromise := Suc (nextPromise c),
              settled := settled c @ [(nextPromise c, Rejected ''Not connected'')] \<rparr>))
   \<and> (map_of (pendingRequests c) (m_id msg) = Some p \<longrightarrow>
        settled (handleMessage msg c) = settled c @ [(pr_promise p, Resolved msg)]
      \<and> map_of (pendingRequests (handleMessage msg c)) (m_id msg) = None
      \<and> map_of (timeouts (handleMessage msg c)) (pr_timeout p) = None)
   \<and> (map_of (timeouts c) h = Some ident \<longrightarrow>
        fire (RequestTimeout h) c = Some (requestTimeout h ident (clearTimeout h c))
      \<and> settled (requestTimeout h ident (clearTimeout h c))
          = settled c @ [(h, Rejected ''Request timeout'')]
      \<and> map_of (pendingRequests (requestTimeout h ident (clearTimeout h c))) ident = None
      \<and> map_of (timeouts (requestTimeout h ident (clearTimeout h c))) h = None)"
proof -
  note i = client_invD [OF inv_reachable [OF assms]]
  have nc: "request who uuid now c =
          (nextPromise c,
           c\<lparr> nextPromise := Suc (nextPromise c),
              settled := settled c @ [(nextPromise c, Rejected ''Not connected'')] \<rparr>)"
    if "\<not> (status c = Connected \<and> ws c \<noteq> None)"
    using that by (auto simp: request_def Let_def settle_def)
  from i(5) i(7) i(6) i(2) reachable_settled_known [OF assms]
    request_step [of c who uuid now] nc resolve_step [of c msg p] timeout_step [of c h ident]
  show ?thesis by blast
qed

theorem request_settles_once_witness:
  "run busyRun (newRemoteClient ''secret'') = Some busyClient
   \<and> map_of (pendingRequests busyClient) (m_id (message ''state_response'' ''u-1'' ''t4'' :: nat WSMessage))
       = Some \<lparr> pr_promise = 0, pr_caller = CallGetState, pr_timeout = 0 \<rparr>
   \<and> settled (handleMessage (message ''state_response'' ''u-1'' ''t4'') busyClient)
       = [(0, Resolved (message ''state_response'' ''u-1'' ''t4''))]
   \<and> map_of (pendingRequests (handleMessage (message ''state_response'' ''u-1'' ''t4'') busyClient)) ''u-1''
       = None
   \<and> map_of (timeouts busyClient) 1 = Some ''u-2''
   \<and> settled (requestTimeout 1 ''u-2'' (clearTimeout 1 busyClient)) = [(1, Rejected ''Request timeout'')]
   \<and> status busyClient = Connected \<and> ws busyClient \<noteq> None
   \<and> settled (snd (request CallResume ''u-3'' ''t5'' busyClient)) = []
   \<and> fst (request CallResume ''u-3'' ''t5'' busyClient) = 2"
proof -
  let ?m = "message ''state_response'' ''u-1'' ''t4'' :: nat WSMessage"
  have f: "settled busyClient = []" "status busyClient = Connected" "ws busyClient \<noteq> None"
    "nextPromise busyClient = 2" "map_of (timeouts busyClient) 1 = Some ''u-2''"
    "map_of (pendingRequests busyClient) (m_id ?m)
       = Some \<lparr> pr_promise = 0, pr_caller = CallGetState, pr_timeout = 0 \<rparr>"
    "m_id ?m = ''u-1''"
    by (simp_all add: busyClient_def message_def)
  from request_settles_once [OF busyRun_result, of CallResume "''u-3''" "''t5''" ?m
      "\<lparr> pr_promise = 0, pr_caller = CallGetState, pr_timeout = 0 \<rparr>" 1 "''u-2''"]
    busyRun_result f
  show ?thesis by simp
qed


section \<open>Results: Kimi plugin\<close>

lemma splitLines_nonempty [simp]: "splitLines s \<noteq> []"
  by (induction s) (auto split: list.splits)

lemma splitLines_append:
  "splitLines (a @ b) = butlast (splitLines a) @ splitLines (last (splitLines a) @ b)"
proof (induction a)
  case Nil
  then show ?case by simp
next
  case (Cons c a)
  obtain l ls where sp: "splitLines a = l # ls"
    by (cases "splitLines a") simp_all
  show ?case
  proof (cases "c = CHR 0x0A")
    case True
    then show ?thesis by (simp add: Cons.IH)
  next
    case False
    show ?thesis
    proof (cases ls)
      case Nil
      with False sp Cons.IH show ?thesis by simp
    next
      case (Cons l' ls')
      with False sp Cons.IH show ?thesis by simp
    qed
  qed
qed

lemma indexOf_None: "indexOf s (CHR 0x0A) = None \<Longrightarrow> splitLines s = [s]"
  by (induction s) (auto split: if_splits option.splits)

lemma indexOf_Some:
  "indexOf s (CHR 0x0A) = Some i \<Longrightarrow> splitLines s = take i s # splitLines (drop (Suc i) s)"
proof (induction s arbitrary: i)
  case Nil
  then show ?case by simp
next
  case (Cons c s)
  show ?case
  proof (cases "c = CHR 0x0A")
    case True
    with Cons.prems show ?thesis by simp
  next
    case False
    with Cons.prems obtain j where j: "indexOf s (CHR 0x0A) = Some j" "i = Suc j"
      by (auto split: option.splits)
    from Cons.IH [OF j(1)] False j(2) show ?thesis by simp
  qed
qed

lemma pushLoop_spec:
  "pushLoop engine p results =
     (results @ map (parseJsonlLine engine) (butlast (splitLines (buffer p))),
      p\<lparr> buffer := last (splitLines (buffer p)),
         parsed := foldl (\<lambda>out line. record_result (parseJsonlLine engine line) out)
                     (parsed p) (butlast (splitLines (buffer p))) \<rparr>)"
proof (induction engine p results rule: pushLoop.induct)
  case (1 engine p results)
  show ?case
  proof (cases "indexOf (buffer p) (CHR 0x0A)")
    case None
    then show ?thesis
      by (subst pushLoop.simps) (simp add: indexOf_None)
  next
    case (Some i)
    note sp = indexOf_Some [OF Some]
    let ?line = "take i (buffer p)"
    let ?result = "parseJsonlLine engine ?line"
    let ?p2 = "p\<lparr> buffer := drop (i + 1) (buffer p),
                  parsed := record_result ?result (parsed p) \<rparr>"
    have step: "pushLoop engine p results = pushLoop engine ?p2 (results @ [?result])"
      by (subst pushLoop.simps) (simp add: Some Let_def)
    have ih: "pushLoop engine ?p2 (results @ [?result]) =
       ((results @ [?result]) @ map (parseJsonlLine engine) (butlast (splitLines (buffer ?p2))),
        ?p2\<lparr> buffer := last (splitLines (buffer ?p2)),
            parsed := foldl (\<lambda>out line. record_result (parseJsonlLine engine line) out)
                        (parsed ?p2) (butlast (splitLines (buffer ?p2))) \<rparr>)"
      using "1.IH" [OF Some refl refl refl] by simp
    show ?thesis
      unfolding step ih by (simp add: sp)
  qed
qed

lemma push_spec:
  "snd (push engine chunk p) =
     p\<lparr> buffer := last (splitLines (buffer p @ chunk)),
        parsed := foldl (\<lambda>out line. record_result (parseJsonlLine engine line) out)
                    (parsed p) (butlast (splitLines (buffer p @ chunk))) \<rparr>"
  by (simp add: push_def pushLoop_spec)

lemma pushAll_spec:
  assumes "buffer p = last (splitLines s)"
    and "parsed p = foldl (\<lambda>out line. record_result (parseJsonlLine engine line) out)
                      init (butlast (splitLines s))"
  shows "buffer (pushAll engine chunks p) = last (splitLines (s @ concat chunks))
       \<and> parsed (pushAll engine chunks p)
           = foldl (\<lambda>out line. record_result (parseJsonlLine engine line) out)
               init (butlast (splitLines (s @ concat chunks)))"
  using assms
proof (induction chunks arbitrary: p s)
  case Nil
  then show ?case by (simp add: pushAll_def)
next
  case (Cons chunk chunks)
  let ?q = "snd (push engine chunk p)"
  have sp: "splitLines (s @ chunk) = butlast (splitLines s) @ splitLines (buffer p @ chunk)"
    unfolding Cons.prems(1) by (rule splitLines_append)
  have b: "buffer ?q = last (splitLines (s @ chunk))"
    by (simp add: push_spec sp)
  have r: "parsed ?q = foldl (\<lambda>out line. record_result (parseJsonlLine engine line) out)
                         init (butlast (splitLines (s @ chunk)))"
    by (simp add: push_spec sp butlast_append Cons.prems(2))
  have "pushAll engine (chunk # chunks) p = pushAll engine chunks ?q"
    by (simp add: pushAll_def)
  with Cons.IH [OF b r] show ?case by simp
qed

lemma flush_parsed:
  "parsed (snd (flush engine p)) = record_result (parseJsonlLine engine (buffer p)) (parsed p)
   \<and> buffer (snd (flush engine p)) = []"
  by (simp add: flush_def Let_def parseJsonlLine_def)

text \<open>
  Claim C8: for every list of chunks, pushing them in order into a new streaming parser
  and flushing it leaves the state (messages and fallback lines) that the one-shot parser
  returns for the concatenation of the chunks, wherever the chunk boundaries fall and
  with or without a final newline.
\<close>

theorem streaming_parser_equals_one_shot:
  "streamed engine chunks = parseJsonlOutput engine (concat chunks)"
proof -
  let ?step = "\<lambda>out line. record_result (parseJsonlLine engine line) out"
  let ?init = "\<lparr> messages = [], fallback = [] \<rparr> :: 'a ParsedOutput"
  let ?p = "pushAll engine chunks createStreamingJsonlParser"
  let ?ls = "splitLines (concat chunks)"
  have "buffer ?p = last (splitLines ([] @ concat chunks))
      \<and> parsed ?p = foldl ?step ?init (butlast (splitLines ([] @ concat chunks)))"
    by (rule pushAll_spec) (simp_all add: createStreamingJsonlParser_def)
  then have s: "streamed engine chunks = ?step (foldl ?step ?init (butlast ?ls)) (last ?ls)"
    by (simp add: streamed_def getState_def flush_parsed)
  have "foldl ?step ?init ?ls = foldl ?step ?init (butlast ?ls @ [last ?ls])"
    by simp
  also have "\<dots> = ?step (foldl ?step ?init (butlast ?ls)) (last ?ls)"
    by (simp only: foldl_append foldl.simps)
  finally have "parseJsonlOutput engine (concat chunks)
                = ?step (foldl ?step ?init (butlast ?ls)) (last ?ls)"
    by (simp only: parseJsonlOutput_def)
  with s show ?thesis
    by (simp only:)
qed


theorem streaming_parser_equals_one_shot_witness:
  "streamed toyEngine [''{\"type\":\"assi'', ''stant\"}\<newline>junk\<newline>  \<newline>nu'', ''ll'']
     = parseJsonlOutput toyEngine ''{\"type\":\"assistant\"}\<newline>junk\<newline>  \<newline>null''
   \<and> parseJsonlOutput toyEngine ''{\"type\":\"assistant\"}\<newline>junk\<newline>  \<newline>null''
     = \<lparr> messages =
           [\<lparr> km_type = Some ''assistant'', km_message = None, km_tool = None, km_result = None,
              km_cost = None, km_sessionId = None, km_raw = JObj [(''type'', JStr ''assistant'')] \<rparr>],
         fallback = [''junk'', ''null''] \<rparr>"
proof -
  have "parseJsonlOutput toyEngine ''{\"type\":\"assistant\"}\<newline>junk\<newline>  \<newline>null''
     = \<lparr> messages =
           [\<lparr> km_type = Some ''assistant'', km_message = None, km_tool = None, km_result = None,
              km_cost = None, km_sessionId = None, km_raw = JObj [(''type'', JStr ''assistant'')] \<rparr>],
         fallback = [''junk'', ''null''] \<rparr>"
    by (simp add: parseJsonlOutput_def parseJsonlLine_def toyEngine_def trim_def isWhiteSpace_def
        buildMessage_def Let_def)
  with streaming_parser_equals_one_shot
    [of toyEngine "[''{\"type\":\"assi'', ''stant\"}\<newline>junk\<newline>  \<newline>nu'', ''ll'']"]
  show ?thesis by simp
qed





end
